theory Spec2Isabelle
  imports Complex_Main "HOL-Library.Sublist"
begin

section \<open>Strings\<close>

text \<open>
  The program works on Python \<open>str\<close> values. They are modelled as \<^typ>\<open>string\<close>, one
  \<^typ>\<open>char\<close> per code point, read as the Unicode code points 0 to 255 (Latin-1), which
  covers the accented letters of the month table (\<open>CHR 0xE9\<close> is e-acute). Code points
  above 255 are outside the model.
\<close>

text \<open>\<open>str.lower()\<close> on code points below 256: A to Z and the accented capitals
  0xC0 to 0xDE (the multiplication sign 0xD7 apart) move up by 32, all else is unchanged.\<close>

definition lower_char :: "char \<Rightarrow> char" where
  "lower_char c =
     (let n = (of_char c :: nat)
      in if (65 \<le> n \<and> n \<le> 90) \<or> (192 \<le> n \<and> n \<le> 222 \<and> n \<noteq> 215)
         then char_of (n + 32) else c)"

definition lower :: "string \<Rightarrow> string" where
  "lower s = map lower_char s"

text \<open>\<open>s.startswith(p)\<close>, \<open>s.endswith(p)\<close> and \<open>p in s\<close> for strings.\<close>

fun startswith :: "string \<Rightarrow> string \<Rightarrow> bool" where
  "startswith s [] = True"
| "startswith [] (p # ps) = False"
| "startswith (c # cs) (p # ps) = (c = p \<and> startswith cs ps)"

definition endswith :: "string \<Rightarrow> string \<Rightarrow> bool" where
  "endswith s p = startswith (rev s) (rev p)"

fun py_in :: "string \<Rightarrow> string \<Rightarrow> bool" where
  "py_in p [] = (p = [])"
| "py_in p (c # cs) = (startswith (c # cs) p \<or> py_in p cs)"

text \<open>\<open>s.split(sep)\<close> for a separator of one character: the list of the pieces between
  the separators. It is never empty, so \<open>s.split(sep)[0]\<close> never raises.\<close>

fun split :: "string \<Rightarrow> char \<Rightarrow> string list" where
  "split [] sep = [[]]"
| "split (c # cs) sep =
     (if c = sep then [] # split cs sep
      else (let pieces = split cs sep in (c # hd pieces) # tl pieces))"

section \<open>Regular expressions\<close>

text \<open>
  The fragment of Python's \<open>re\<close> syntax the date patterns use. \<open>rmatch r s\<close> lists, in
  the order the backtracking matcher tries them, the rests of \<open>s\<close> left after a match
  of \<open>r\<close> at the start of \<open>s\<close>; \<open>re_search r s\<close> is the truth value of
  \<open>re.search(r, s)\<close>: some position of \<open>s\<close> starts a match. Groups only capture,
  so they are left out. \<open>\d\<close> is a decimal digit; below code point 256 these are 0 to 9.
\<close>

datatype regex =
    Eps
  | Lit char
  | Digit
  | Range char char
  | Seq regex regex
  | Alt regex regex
  | Opt regex

definition is_digit :: "char \<Rightarrow> bool" where
  "is_digit c = (48 \<le> (of_char c :: nat) \<and> (of_char c :: nat) \<le> 57)"

definition in_range :: "char \<Rightarrow> char \<Rightarrow> char \<Rightarrow> bool" where
  "in_range lo hi c = ((of_char lo :: nat) \<le> of_char c \<and> (of_char c :: nat) \<le> of_char hi)"

fun rmatch :: "regex \<Rightarrow> string \<Rightarrow> string list" where
  "rmatch Eps s = [s]"
| "rmatch (Lit a) s = (case s of [] \<Rightarrow> [] | c # cs \<Rightarrow> if c = a then [cs] else [])"
| "rmatch Digit s = (case s of [] \<Rightarrow> [] | c # cs \<Rightarrow> if is_digit c then [cs] else [])"
| "rmatch (Range lo hi) s =
     (case s of [] \<Rightarrow> [] | c # cs \<Rightarrow> if in_range lo hi c then [cs] else [])"
| "rmatch (Seq r1 r2) s = concat (map (rmatch r2) (rmatch r1 s))"
| "rmatch (Alt r1 r2) s = rmatch r1 s @ rmatch r2 s"
| "rmatch (Opt r) s = rmatch r s @ [s]"

fun re_search :: "regex \<Rightarrow> string \<Rightarrow> bool" where
  "re_search r [] = (rmatch r [] \<noteq> [])"
| "re_search r (c # cs) = (rmatch r (c # cs) \<noteq> [] \<or> re_search r cs)"

text \<open>\<open>r{n}\<close> is \<open>n\<close> copies of \<open>r\<close> in sequence, a literal string the sequence of
  its characters, and a pattern the sequence of its parts.\<close>

fun times :: "nat \<Rightarrow> regex \<Rightarrow> regex" where
  "times 0 r = Eps"
| "times (Suc n) r = Seq r (times n r)"

fun lits :: "string \<Rightarrow> regex" where
  "lits [] = Eps"
| "lits (c # cs) = Seq (Lit c) (lits cs)"

fun seqs :: "regex list \<Rightarrow> regex" where
  "seqs [] = Eps"
| "seqs (r # rs) = Seq r (seqs rs)"

section \<open>The link extractor's tables\<close>

definition EXCLUDED_EXTENSIONS :: "string list" where
  "EXCLUDED_EXTENSIONS =
     [''.pdf'', ''.jpg'', ''.jpeg'', ''.png'', ''.gif'', ''.zip'',
      ''.doc'', ''.docx'', ''.xls'', ''.xlsx'', ''.ppt'', ''.pptx'',
      ''.mp4'', ''.avi'', ''.mov'', ''.mp3'', ''.wav'']"

text \<open>The month names with an accent, spelled with \<open>CHR 0xE9\<close> for e-acute.\<close>

definition fevrier :: string where
  "fevrier = ''f'' @ [CHR 0xE9] @ ''vrier''"

definition decembre :: string where
  "decembre = ''d'' @ [CHR 0xE9] @ ''cembre''"

text \<open>\<open>TARGET_MONTHS\<close> is a dict literal; a Python dict keeps the order of insertion,
  so it is an association list in the order written.\<close>

definition TARGET_MONTHS :: "(string \<times> string list) list" where
  "TARGET_MONTHS =
     [(''janvier'', [''01'', ''1'', ''janvier'', ''january'']),
      (fevrier, [''02'', ''2'', fevrier, ''february'']),
      (''mars'', [''03'', ''3'', ''mars'', ''march'']),
      (''novembre'', [''11'', ''novembre'', ''november'']),
      (decembre, [''12'', decembre, ''december''])]"

section \<open>The month matcher\<close>

text \<open>The four date patterns of \<open>_contains_target_month\<close>, in the order of the list
  \<open>date_patterns\<close>. All four end in the month alternative \<open>(0?[1-3]|11|12)\<close>.\<close>

definition month_alt :: regex where
  "month_alt =
     Alt (Seq (Opt (Lit CHR ''0'')) (Range CHR ''1'' CHR ''3''))
         (Alt (lits ''11'') (lits ''12''))"

definition date_patterns :: "regex list" where
  "date_patterns =
     [seqs [Lit CHR ''/'', times 4 Digit, Lit CHR ''/'', month_alt, Lit CHR ''/''],
      seqs [Lit CHR ''/'', times 4 Digit, Lit CHR ''-'', month_alt, Lit CHR ''-''],
      seqs [times 4 Digit, Lit CHR ''/'', month_alt, Lit CHR ''/''],
      seqs [times 4 Digit, Lit CHR ''-'', month_alt, Lit CHR ''-'']]"

text \<open>The two loops of \<open>_contains_target_month\<close>: the first pattern that is found
  returns True. The regular expressions search \<open>url\<close> itself, the month tokens its
  lower-case form.\<close>

definition contains_target_month :: "string \<Rightarrow> bool" where
  "contains_target_month url =
     (let url_lower = lower url
      in if list_ex (\<lambda>pattern. re_search pattern url) date_patterns then True
         else if list_ex (\<lambda>month_patterns.
                   list_ex (\<lambda>pattern. py_in pattern url_lower) month_patterns)
                 (map snd TARGET_MONTHS) then True
         else False)"

text \<open>\<open>filter_links_by_months\<close> is a list comprehension with a condition.\<close>

definition filter_links_by_months :: "string list \<Rightarrow> string list" where
  "filter_links_by_months links = [link \<leftarrow> links. contains_target_month link]"

text \<open>
  \<open>get_month_statistics\<close>: \<open>stats\<close> is a dict with the keys of \<open>TARGET_MONTHS\<close>, each at
  0, so an association list in the same order. \<open>stats[month_name] += 1\<close> changes the
  entry of a key that is always there. The three nested loops are three recursions; the
  \<open>break\<close> leaves the innermost one, over the patterns of one month, and the loop over
  the months goes on with the next month.
\<close>

type_synonym stats = "(string \<times> nat) list"

definition incr :: "string \<Rightarrow> stats \<Rightarrow> stats" where
  "incr month_name stats =
     map (\<lambda>(k, v). if k = month_name then (k, v + 1) else (k, v)) stats"

fun count_patterns :: "string \<Rightarrow> string \<Rightarrow> string list \<Rightarrow> stats \<Rightarrow> stats" where
  "count_patterns link month_name [] stats = stats"
| "count_patterns link month_name (pattern # patterns) stats =
     (if py_in pattern (lower link) then incr month_name stats
      else count_patterns link month_name patterns stats)"

fun count_months :: "string \<Rightarrow> (string \<times> string list) list \<Rightarrow> stats \<Rightarrow> stats" where
  "count_months link [] stats = stats"
| "count_months link ((month_name, patterns) # months) stats =
     count_months link months (count_patterns link month_name patterns stats)"

fun count_links :: "string list \<Rightarrow> stats \<Rightarrow> stats" where
  "count_links [] stats = stats"
| "count_links (link # links) stats = count_links links (count_months link TARGET_MONTHS stats)"

definition get_month_statistics :: "string list \<Rightarrow> stats" where
  "get_month_statistics filtered_links =
     count_links filtered_links (map (\<lambda>(month, patterns). (month, 0)) TARGET_MONTHS)"

text \<open>\<open>_should_visit_link\<close>: the extension test is on the whole lower-case url, the
  fragment test on the piece before the first question mark.\<close>

definition should_visit_link :: "string \<Rightarrow> bool" where
  "should_visit_link url =
     (if list_ex (\<lambda>ext. endswith (lower url) ext) EXCLUDED_EXTENSIONS then False
      else if CHR ''#'' \<in> set (hd (split url CHR ''?'')) then False
      else True)"

section \<open>Link extraction\<close>

text \<open>
  \<open>urljoin\<close> and \<open>urlparse(...).netloc\<close> belong to the Python library, not to the
  program: they are parameters of the model, and every theorem below holds whatever
  they compute. Both raise \<open>ValueError\<close> on some strings (a reference such as
  \<open>http://[::1\<close>, with a square bracket that is not closed, is an invalid IPv6 url), so
  each returns the error or its result. The \<open>requests\<close> session and its header play no
  part in the traversal logic and are left out of the record of the instance.
\<close>

datatype error = ValueError

record url_lib =
  urljoin :: "string \<Rightarrow> string \<Rightarrow> error + string"
  netloc :: "string \<Rightarrow> error + string"

record link_extractor =
  base_url :: string
  domain :: string
  delay :: real

text \<open>\<open>__init__\<close> parses the base url, so it raises what \<open>urlparse\<close> raises.\<close>

definition init_extractor :: "url_lib \<Rightarrow> string \<Rightarrow> real \<Rightarrow> error + link_extractor" where
  "init_extractor lib url d =
     (case netloc lib url of
        Inl e \<Rightarrow> Inl e
      | Inr loc \<Rightarrow> Inr \<lparr>base_url = url, domain = loc, delay = d\<rparr>)"

text \<open>A parsed document is the list of its tags in document order, each with its name
  and its dict of attributes. \<open>anchor_hrefs\<close> is \<open>link['href']\<close> for every \<open>link\<close> of
  \<open>soup.find_all('a', href=True)\<close>.\<close>

record tag =
  tag_name :: string
  attrs :: "string \<rightharpoonup> string"

type_synonym soup = "tag list"

definition anchor_hrefs :: "soup \<Rightarrow> string list" where
  "anchor_hrefs doc =
     List.map_filter (\<lambda>t. if tag_name t = ''a'' then attrs t ''href'' else None) doc"

text \<open>\<open>str.strip()\<close> removes the white space at both ends; below code point 256 the
  white-space characters are 0x09 to 0x0D, 0x1C to 0x20, 0x85 and 0xA0.\<close>

definition isspace :: "char \<Rightarrow> bool" where
  "isspace c =
     (let n = (of_char c :: nat)
      in (9 \<le> n \<and> n \<le> 13) \<or> (28 \<le> n \<and> n \<le> 32) \<or> n = 133 \<or> n = 160)"

definition strip :: "string \<Rightarrow> string" where
  "strip s = rev (dropWhile isspace (rev (dropWhile isspace s)))"

definition navigable :: "string \<Rightarrow> bool" where
  "navigable href =
     (href \<noteq> [] \<and>
      \<not> (startswith href ''javascript:'' \<or> startswith href ''mailto:'' \<or> startswith href ''tel:''))"

text \<open>The loop of \<open>_extract_links_from_page\<close>. It has no \<open>try\<close>: an exception of
  \<open>urljoin\<close> or \<open>urlparse\<close> ends it, and the function returns no set.\<close>

fun extract_loop ::
  "url_lib \<Rightarrow> link_extractor \<Rightarrow> string \<Rightarrow> string list \<Rightarrow> string set \<Rightarrow> error + string set" where
  "extract_loop lib self current_url [] links = Inr links"
| "extract_loop lib self current_url (raw # rest) links =
     (let href = strip raw
      in if navigable href
         then (case urljoin lib current_url href of
                 Inl e \<Rightarrow> Inl e
               | Inr absolute_url \<Rightarrow>
                   (case netloc lib absolute_url of
                      Inl e \<Rightarrow> Inl e
                    | Inr loc \<Rightarrow>
                        if loc = domain self
                        then extract_loop lib self current_url rest (insert absolute_url links)
                        else extract_loop lib self current_url rest links))
         else extract_loop lib self current_url rest links)"

definition extract_links_from_page ::
  "url_lib \<Rightarrow> link_extractor \<Rightarrow> soup \<Rightarrow> string \<Rightarrow> error + string set" where
  "extract_links_from_page lib self doc current_url =
     extract_loop lib self current_url (anchor_hrefs doc) {}"

section \<open>The traversal\<close>

text \<open>
  What the network answers is not the program's choice, and neither is the order in
  which Python iterates over the set \<open>new_links\<close>. Both are inputs of one pass through
  the body of the \<open>while\<close> loop: a \<open>fetch_result\<close>, and the list \<open>order\<close> of the new
  links as the \<open>for\<close> loop meets them. \<open>session.get\<close> raises a \<open>RequestException\<close>
  (no connection, timeout, too many redirects) or returns a response with a status
  code and a body, here already parsed. \<open>raise_for_status\<close> raises \<open>HTTPError\<close>, a
  \<open>RequestException\<close> too, for the status codes 400 to 599 and for no other. An
  exception of another class is not caught: the \<open>ValueError\<close> of the link extraction
  leaves the loop and \<open>get_all_domain_links\<close>.
\<close>

datatype fetch_result = Request_exception | Response nat soup

definition raise_for_status :: "nat \<Rightarrow> bool" where
  "raise_for_status status_code = (400 \<le> status_code \<and> status_code < 600)"

text \<open>Whether the \<open>try\<close> block leaves through \<open>except requests.RequestException\<close>,
  and the status code the request came back with, if it came back.\<close>

fun request_fails :: "fetch_result \<Rightarrow> bool" where
  "request_fails Request_exception = True"
| "request_fails (Response status_code doc) = raise_for_status status_code"

fun status_of :: "fetch_result \<Rightarrow> nat option" where
  "status_of Request_exception = None"
| "status_of (Response status_code doc) = Some status_code"

text \<open>The effects of the loop body, in the order they happen: the progress line, the
  GET with what came back (\<open>None\<close> for an exception of \<open>session.get\<close>, the status code
  otherwise), the warning of the \<open>except\<close> branch, and \<open>time.sleep\<close>.\<close>

datatype event =
    Log_info nat string
  | Http_get string "nat option"
  | Log_warning string
  | Sleep real

text \<open>The state of the loop: its four local variables, the trace, and \<open>raised\<close>, the
  exception that has left the loop, if one has.\<close>

record crawl_state =
  visited :: "string set"
  to_visit :: "string list"
  all_links :: "string set"
  page_count :: nat
  events :: "event list"
  raised :: "error option"

definition init_state :: "link_extractor \<Rightarrow> crawl_state" where
  "init_state self =
     \<lparr>visited = {}, to_visit = [base_url self], all_links = {}, page_count = 0, events = [],
      raised = None\<rparr>"

definition emit :: "event list \<Rightarrow> crawl_state \<Rightarrow> crawl_state" where
  "emit es s = s\<lparr>events := events s @ es\<rparr>"

text \<open>One pass of \<open>for link in new_links\<close>.\<close>

definition enqueue_link :: "string \<Rightarrow> crawl_state \<Rightarrow> crawl_state" where
  "enqueue_link link s =
     (if link \<notin> visited s \<and> link \<notin> set (to_visit s) \<and> should_visit_link link
      then s\<lparr>to_visit := to_visit s @ [link]\<rparr> else s)"

text \<open>One pass through the body of \<open>while to_visit\<close>, for a frontier that is not empty.
  When the link extraction raises, the page is already marked as visited and counted,
  and nothing after the call is executed.\<close>

definition crawl_iteration ::
  "url_lib \<Rightarrow> link_extractor \<Rightarrow> fetch_result \<Rightarrow> string list \<Rightarrow> crawl_state \<Rightarrow> crawl_state" where
  "crawl_iteration lib self answer order s =
     (case to_visit s of
        [] \<Rightarrow> s
      | current_url # rest \<Rightarrow>
          (let s1 = s\<lparr>to_visit := rest\<rparr>
           in if current_url \<in> visited s1 then s1
              else
                (let s2 = emit [Log_info (page_count s1 + 1) current_url] s1
                 in case answer of
                      Request_exception \<Rightarrow>
                        emit [Http_get current_url None, Log_warning current_url] s2
                    | Response status_code doc \<Rightarrow>
                        (let s3 = emit [Http_get current_url (Some status_code)] s2
                         in if raise_for_status status_code
                            then emit [Log_warning current_url] s3
                            else
                              (let s4 = s3\<lparr>visited := insert current_url (visited s3),
                                            page_count := page_count s3 + 1\<rparr>
                               in case extract_links_from_page lib self doc current_url of
                                    Inl e \<Rightarrow> s4\<lparr>raised := Some e\<rparr>
                                  | Inr new_links \<Rightarrow>
                                      (let s5 = s4\<lparr>all_links := all_links s4 \<union> new_links\<rparr>;
                                           s6 = fold enqueue_link order s5
                                       in emit [Sleep (delay self)] s6))))))"

text \<open>\<open>order\<close> is a real order of iteration when it lists the extracted links, each
  once. It matters only in a pass that processes a page.\<close>

definition order_ok ::
  "url_lib \<Rightarrow> link_extractor \<Rightarrow> fetch_result \<Rightarrow> string list \<Rightarrow> crawl_state \<Rightarrow> bool" where
  "order_ok lib self answer order s =
     (case (to_visit s, answer) of
        (current_url # rest, Response status_code doc) \<Rightarrow>
          current_url \<in> visited s \<or> raise_for_status status_code \<or>
          (case extract_links_from_page lib self doc current_url of
             Inl e \<Rightarrow> True
           | Inr new_links \<Rightarrow> distinct order \<and> set order = new_links)
      | _ \<Rightarrow> True)"

text \<open>The states at the head of the loop, over all answers of the network and all
  orders of iteration. After an exception there is no further pass.\<close>

inductive reachable :: "url_lib \<Rightarrow> link_extractor \<Rightarrow> crawl_state \<Rightarrow> bool"
  for lib :: url_lib and self :: link_extractor where
  start: "reachable lib self (init_state self)"
| pass: "reachable lib self s \<Longrightarrow> to_visit s \<noteq> [] \<Longrightarrow> raised s = None
         \<Longrightarrow> order_ok lib self answer order s
         \<Longrightarrow> reachable lib self (crawl_iteration lib self answer order s)"

text \<open>
  The loop itself. The crawl of an endless site never returns, so the loop runs on a
  list of inputs, one per pass: it returns the final state when the frontier becomes
  empty or an exception has left the loop, and \<open>None\<close> when the inputs run out first.
\<close>

fun crawl ::
  "url_lib \<Rightarrow> link_extractor \<Rightarrow> (fetch_result \<times> string list) list \<Rightarrow> crawl_state
   \<Rightarrow> crawl_state option" where
  "crawl lib self [] s = (if to_visit s = [] \<or> raised s \<noteq> None then Some s else None)"
| "crawl lib self ((answer, order) # inputs) s =
     (if to_visit s = [] \<or> raised s \<noteq> None then Some s
      else crawl lib self inputs (crawl_iteration lib self answer order s))"

fun inputs_ok ::
  "url_lib \<Rightarrow> link_extractor \<Rightarrow> (fetch_result \<times> string list) list \<Rightarrow> crawl_state \<Rightarrow> bool" where
  "inputs_ok lib self [] s = True"
| "inputs_ok lib self ((answer, order) # inputs) s =
     (to_visit s = [] \<or> raised s \<noteq> None \<or>
      (order_ok lib self answer order s \<and>
       inputs_ok lib self inputs (crawl_iteration lib self answer order s)))"

text \<open>\<open>get_all_domain_links\<close> returns \<open>list(all_links)\<close>, the links in no particular
  order: the model returns the set, or the exception that left the loop.\<close>

definition get_all_domain_links ::
  "url_lib \<Rightarrow> link_extractor \<Rightarrow> (fetch_result \<times> string list) list
   \<Rightarrow> (error + string set) option" where
  "get_all_domain_links lib self inputs =
     map_option (\<lambda>s. case raised s of Some e \<Rightarrow> Inl e | None \<Rightarrow> Inr (all_links s))
       (crawl lib self inputs (init_state self))"

subsection \<open>Reading the trace\<close>

text \<open>The urls of the GET requests, in order; those whose page was processed (a
  response that \<open>raise_for_status\<close> lets through); and whether a \<open>Sleep\<close> lies between
  any two successive requests (\<open>pending\<close>: a request was made since the last sleep).\<close>

fun attempts :: "event list \<Rightarrow> string list" where
  "attempts [] = []"
| "attempts (Http_get url r # es) = url # attempts es"
| "attempts (e # es) = attempts es"

fun processed :: "event list \<Rightarrow> string list" where
  "processed [] = []"
| "processed (Http_get url (Some status_code) # es) =
     (if raise_for_status status_code then processed es else url # processed es)"
| "processed (e # es) = processed es"

fun paced :: "bool \<Rightarrow> event list \<Rightarrow> bool" where
  "paced pending [] = True"
| "paced pending (Http_get url r # es) = (\<not> pending \<and> paced True es)"
| "paced pending (Sleep d # es) = paced False es"
| "paced pending (e # es) = paced pending es"

definition delay_between_attempts :: "event list \<Rightarrow> bool" where
  "delay_between_attempts es = paced False es"

section \<open>The exclusion test as the specification words it\<close>

text \<open>
  The specification states the exclusion test on the path of the url: an absolute url
  is a scheme, a host, a path, and an optional query and fragment. \<open>spec_path\<close> follows
  these words: what comes after \<open>scheme://host\<close>, up to the first question mark or
  hash. \<open>spec_is_excluded\<close> is the test of the specification, to be compared with
  \<open>should_visit_link\<close>.
\<close>

definition path_end :: "char \<Rightarrow> bool" where
  "path_end c = (c = CHR ''?'' \<or> c = CHR ''#'')"

definition host_end :: "char \<Rightarrow> bool" where
  "host_end c = (c = CHR ''/'' \<or> path_end c)"

definition spec_path :: "string \<Rightarrow> string" where
  "spec_path url =
     takeWhile (\<lambda>c. \<not> path_end c)
       (dropWhile (\<lambda>c. \<not> host_end c) (drop 3 (dropWhile (\<lambda>c. c \<noteq> CHR '':'') url)))"

definition spec_is_excluded :: "string \<Rightarrow> bool" where
  "spec_is_excluded url =
     (list_ex (\<lambda>ext. suffix ext (lower (spec_path url))) EXCLUDED_EXTENSIONS \<or>
      CHR ''#'' \<in> set (takeWhile (\<lambda>c. c \<noteq> CHR ''?'') url))"

section \<open>A small site to run the traversal on\<close>

text \<open>
  To run the loop on an example the two library functions need values. \<open>plain_lib\<close>
  stands for them on the references of the examples, which are all of the form
  \<open>scheme://host/path\<close>: the network location of such a url is the text between \<open>//\<close>
  and the next slash, question mark or hash, and \<open>urlparse\<close> raises \<open>ValueError\<close> when
  it has one of the two square brackets without the other; the reference resolves to
  itself when it parses, and \<open>urljoin\<close> raises when it does not.
\<close>

definition plain_netloc :: "string \<Rightarrow> error + string" where
  "plain_netloc url =
     (let loc = takeWhile (\<lambda>c. \<not> host_end c) (drop 3 (dropWhile (\<lambda>c. c \<noteq> CHR '':'') url))
      in if (CHR ''['' \<in> set loc) \<noteq> (CHR '']'' \<in> set loc)
         then Inl ValueError else Inr loc)"

definition plain_lib :: url_lib where
  "plain_lib =
     \<lparr>urljoin = (\<lambda>base href. case plain_netloc href of Inl e \<Rightarrow> Inl e | Inr loc \<Rightarrow> Inr href),
      netloc = plain_netloc\<rparr>"

definition anchor :: "string \<Rightarrow> tag" where
  "anchor href = \<lparr>tag_name = ''a'', attrs = [''href'' \<mapsto> href]\<rparr>"

text \<open>The extractor that \<open>LinkExtractor("https://site.com/", delay=0.5)\<close> builds.\<close>

definition site :: link_extractor where
  "site = \<lparr>base_url = ''https://site.com/'', domain = ''site.com'', delay = 1 / 2\<rparr>"

text \<open>The home page of the site links to two pages and a PDF file.\<close>

definition home_page :: soup where
  "home_page =
     [anchor ''https://site.com/a'', anchor ''https://site.com/b'',
      anchor ''https://site.com/c.pdf'']"

definition home_order :: "string list" where
  "home_order = [''https://site.com/a'', ''https://site.com/b'', ''https://site.com/c.pdf'']"

definition after_home :: crawl_state where
  "after_home = crawl_iteration plain_lib site (Response 200 home_page) home_order (init_state site)"

text \<open>A run in which the home page is fetched and both of its pages fail.\<close>

definition failing_run :: "(fetch_result \<times> string list) list" where
  "failing_run = [(Response 200 home_page, home_order), (Request_exception, []), (Request_exception, [])]"

text \<open>An extractor started on a PDF file.\<close>

definition pdf_site :: link_extractor where
  "pdf_site = \<lparr>base_url = ''https://site.com/doc.pdf'', domain = ''site.com'', delay = 1 / 2\<rparr>"

text \<open>A page with a reference that \<open>urljoin\<close> refuses.\<close>

definition broken_page :: soup where
  "broken_page = [anchor ''http://[::1'']"

section \<open>Invariants of the traversal\<close>

text \<open>The frontier has no url twice and none that was visited, and the visited urls are
  the urls of the pages processed, each once.\<close>

definition no_repeat_inv :: "crawl_state \<Rightarrow> bool" where
  "no_repeat_inv s =
     (distinct (to_visit s) \<and> visited s \<inter> set (to_visit s) = {} \<and>
      set (processed (events s)) = visited s \<and> distinct (processed (events s)))"

text \<open>After the first pass every url of the frontier has passed \<open>_should_visit_link\<close>,
  the first request was for the base url, and every later one for a url that passed.\<close>

definition frontier_inv :: "link_extractor \<Rightarrow> crawl_state \<Rightarrow> bool" where
  "frontier_inv self s =
     (s = init_state self \<or>
      (list_all should_visit_link (to_visit s) \<and>
       (\<exists>later. attempts (events s) = base_url self # later \<and>
                list_all should_visit_link later)))"

section \<open>Strings and statistics: auxiliary facts\<close>

lemma startswith_prefix: "startswith s p = prefix p s"
  by (induction s p rule: startswith.induct) auto
lemma endswith_suffix: "endswith s p = suffix p s"
  by (simp add: endswith_def startswith_prefix suffix_to_prefix)
lemma hd_split: "hd (split s sep) = takeWhile (\<lambda>c. c \<noteq> sep) s"
  by (induction s) (simp_all add: Let_def)

lemma incr_lookup:
  "map_of (incr m st) k = (if k = m then map_option Suc (map_of st k) else map_of st k)"
  by (induction st) (auto simp: incr_def)

lemma incr_keys: "map fst (incr m st) = map fst st"
  by (induction st) (auto simp: incr_def)

lemma count_patterns_eq:
  "count_patterns link m ps st = (if list_ex (\<lambda>p. py_in p (lower link)) ps then incr m st else st)"
  by (induction ps) auto

lemma count_months_lookup:
  "map_of (count_months link months st) k =
     map_option (\<lambda>v. v + length [e \<leftarrow> months. fst e = k \<and> list_ex (\<lambda>p. py_in p (lower link)) (snd e)])
       (map_of st k)"
proof (induction months arbitrary: st)
  case Nil
  show ?case by (simp add: option.map_ident)
next
  case (Cons e months)
  obtain m ps where e: "e = (m, ps)" by (cases e)
  show ?case
    by (cases "map_of st k") (auto simp: e Cons.IH count_patterns_eq incr_lookup)
qed

lemma count_months_keys: "map fst (count_months link months st) = map fst st"
  by (induction months arbitrary: st) (auto simp: count_patterns_eq incr_keys)

lemma count_links_keys: "map fst (count_links links st) = map fst st"
  by (induction links arbitrary: st) (auto simp: count_months_keys)

lemma count_links_lookup:
  "map_of (count_links links st) k =
     map_option (\<lambda>v. v + (\<Sum>link\<leftarrow>links.
        length [e \<leftarrow> TARGET_MONTHS. fst e = k \<and> list_ex (\<lambda>p. py_in p (lower link)) (snd e)]))
       (map_of st k)"
proof (induction links arbitrary: st)
  case Nil
  show ?case by (simp add: option.map_ident)
next
  case (Cons link links)
  show ?case
    by (cases "map_of st k") (simp_all add: Cons.IH count_months_lookup)
qed

lemma unique_entry:
  "distinct (map fst al) \<Longrightarrow> (k, v) \<in> set al \<Longrightarrow>
   length [e \<leftarrow> al. fst e = k \<and> P (snd e)] = (if P v then 1 else 0)"
proof (induction al)
  case Nil
  then show ?case by simp
next
  case (Cons e al)
  show ?case
  proof (cases "e = (k, v)")
    case True
    with Cons.prems have "k \<notin> fst ` set al" by simp
    then have "[e \<leftarrow> al. fst e = k \<and> P (snd e)] = []"
      by (auto simp: filter_empty_conv)
    with True show ?thesis by simp
  next
    case False
    with Cons.prems have in_al: "(k, v) \<in> set al" and d: "distinct (map fst al)" by auto
    from in_al have "k \<in> fst ` set al" by force
    moreover from Cons.prems have "fst e \<notin> fst ` set al" by simp
    ultimately have "fst e \<noteq> k" by auto
    with Cons.IH [OF d in_al] show ?thesis by simp
  qed
qed

lemma TARGET_MONTHS_distinct: "distinct (map fst TARGET_MONTHS)"
  by (simp add: TARGET_MONTHS_def fevrier_def decembre_def)

lemma sum_indicator: "(\<Sum>x\<leftarrow>xs. if P x then 1 else 0) = length (filter P xs)"
  by (induction xs) auto

lemma init_keys: "map fst (map (\<lambda>(month, patterns). (month, 0::nat)) al) = map fst al"
  by (induction al) auto

lemma init_lookup:
  "(k, v) \<in> set al \<Longrightarrow> map_of (map (\<lambda>(month, patterns). (month, 0::nat)) al) k = Some 0"
  by (induction al) auto

lemma error_is_ValueError: "(e :: error) = ValueError"
  by (cases e) simp

lemma extract_loop_eq:
  "extract_loop lib self cur hs acc =
     (if \<forall>h \<in> set (filter navigable (map strip hs)).
           \<exists>a loc. urljoin lib cur h = Inr a \<and> netloc lib a = Inr loc
      then Inr (acc \<union> {a. \<exists>h \<in> set (filter navigable (map strip hs)).
                          urljoin lib cur h = Inr a \<and> netloc lib a = Inr (domain self)})
      else Inl ValueError)"
proof (induction hs arbitrary: acc)
  case Nil
  show ?case by simp
next
  case (Cons raw hs)
  show ?case
  proof (cases "navigable (strip raw)")
    case False
    then show ?thesis by (simp add: Cons.IH)
  next
    case nav: True
    show ?thesis
    proof (cases "urljoin lib cur (strip raw)")
      case (Inl e)
      with nav show ?thesis by (auto simp: error_is_ValueError [of e])
    next
      case a: (Inr a)
      show ?thesis
      proof (cases "netloc lib a")
        case (Inl e)
        with nav a show ?thesis by (auto simp: error_is_ValueError [of e])
      next
        case (Inr loc)
        with nav a show ?thesis by (auto simp: Cons.IH)
      qed
    qed
  qed
qed

lemma anchor_hrefs_set:
  "set (anchor_hrefs doc) = {v. \<exists>t \<in> set doc. tag_name t = ''a'' \<and> attrs t ''href'' = Some v}"
  by (induction doc) (auto simp: anchor_hrefs_def split: option.splits if_splits)

lemma extract_loop_finite:
  "extract_loop lib self cur hs acc = Inr links \<Longrightarrow> finite acc \<Longrightarrow> finite links"
  by (induction hs arbitrary: acc) (auto simp: Let_def split: if_splits sum.splits)

lemma finite_extract: "extract_links_from_page lib self doc url = Inr links \<Longrightarrow> finite links"
  by (auto simp: extract_links_from_page_def dest: extract_loop_finite)

lemma processed_append: "processed (es @ es') = processed es @ processed es'"
  by (induction es rule: processed.induct) auto

lemma attempts_append: "attempts (es @ es') = attempts es @ attempts es'"
  by (induction es rule: attempts.induct) auto

lemma enqueue_fields:
  "visited (enqueue_link link s) = visited s"
  "all_links (enqueue_link link s) = all_links s"
  "page_count (enqueue_link link s) = page_count s"
  "events (enqueue_link link s) = events s"
  "raised (enqueue_link link s) = raised s"
  by (simp_all add: enqueue_link_def)

lemma enqueue_should_visit:
  "list_all should_visit_link (to_visit s) \<Longrightarrow>
   list_all should_visit_link (to_visit (enqueue_link link s))"
  by (simp add: enqueue_link_def)

lemma enqueue_distinct:
  "distinct (to_visit s) \<Longrightarrow> distinct (to_visit (enqueue_link link s))"
  by (simp add: enqueue_link_def)

lemma enqueue_disjoint:
  "visited s \<inter> set (to_visit s) = {} \<Longrightarrow>
   visited (enqueue_link link s) \<inter> set (to_visit (enqueue_link link s)) = {}"
  by (simp add: enqueue_link_def)

lemma fold_enqueue_fields:
  "visited (fold enqueue_link order s) = visited s"
  "all_links (fold enqueue_link order s) = all_links s"
  "page_count (fold enqueue_link order s) = page_count s"
  "events (fold enqueue_link order s) = events s"
  "raised (fold enqueue_link order s) = raised s"
  by (induction order arbitrary: s) (simp_all add: enqueue_fields)

lemma fold_enqueue_should_visit:
  "list_all should_visit_link (to_visit s) \<Longrightarrow>
   list_all should_visit_link (to_visit (fold enqueue_link order s))"
  by (induction order arbitrary: s) (simp_all add: enqueue_should_visit)

lemma fold_enqueue_distinct:
  "distinct (to_visit s) \<Longrightarrow> distinct (to_visit (fold enqueue_link order s))"
  by (induction order arbitrary: s) (simp_all add: enqueue_distinct)

lemma fold_enqueue_disjoint:
  "visited s \<inter> set (to_visit s) = {} \<Longrightarrow>
   visited (fold enqueue_link order s) \<inter> set (to_visit (fold enqueue_link order s)) = {}"
  by (induction order arbitrary: s) (simp_all add: enqueue_disjoint)

text \<open>The four ways through the body of the loop.\<close>

lemma crawl_iteration_skip:
  "to_visit s = u # rest \<Longrightarrow> u \<in> visited s \<Longrightarrow>
   crawl_iteration lib self answer order s = s\<lparr>to_visit := rest\<rparr>"
  by (simp add: crawl_iteration_def)

lemma crawl_iteration_fail:
  "to_visit s = u # rest \<Longrightarrow> u \<notin> visited s \<Longrightarrow> request_fails answer \<Longrightarrow>
   crawl_iteration lib self answer order s =
     s\<lparr>to_visit := rest,
       events := events s @ [Log_info (page_count s + 1) u, Http_get u (status_of answer),
                             Log_warning u]\<rparr>"
  by (cases answer) (simp_all add: crawl_iteration_def emit_def)

lemma crawl_iteration_ok:
  "to_visit s = u # rest \<Longrightarrow> u \<notin> visited s \<Longrightarrow> \<not> raise_for_status st \<Longrightarrow>
   extract_links_from_page lib self doc u = Inr new_links \<Longrightarrow>
   crawl_iteration lib self (Response st doc) order s =
     emit [Sleep (delay self)]
       (fold enqueue_link order
          (s\<lparr>to_visit := rest,
             events := events s @ [Log_info (page_count s + 1) u, Http_get u (Some st)],
             visited := insert u (visited s),
             page_count := page_count s + 1,
             all_links := all_links s \<union> new_links\<rparr>))"
  by (simp add: crawl_iteration_def emit_def Let_def)

lemma crawl_iteration_raise:
  "to_visit s = u # rest \<Longrightarrow> u \<notin> visited s \<Longrightarrow> \<not> raise_for_status st \<Longrightarrow>
   extract_links_from_page lib self doc u = Inl e \<Longrightarrow>
   crawl_iteration lib self (Response st doc) order s =
     s\<lparr>to_visit := rest,
       events := events s @ [Log_info (page_count s + 1) u, Http_get u (Some st)],
       visited := insert u (visited s),
       page_count := page_count s + 1,
       raised := Some e\<rparr>"
  by (simp add: crawl_iteration_def emit_def Let_def)

lemma no_repeat_inv_pass:
  assumes "no_repeat_inv s" "to_visit s \<noteq> []"
  shows "no_repeat_inv (crawl_iteration lib self answer order s)"
proof -
  from assms obtain u rest where tv: "to_visit s = u # rest" by (cases "to_visit s") auto
  show ?thesis
  proof (cases "u \<in> visited s")
    case True
    with assms tv show ?thesis by (auto simp: crawl_iteration_skip no_repeat_inv_def)
  next
    case nv: False
    show ?thesis
    proof (cases "request_fails answer")
      case True
      have "processed [Log_info (page_count s + 1) u, Http_get u (status_of answer), Log_warning u] = []"
        using True by (cases answer) simp_all
      with assms tv show ?thesis
        by (auto simp: crawl_iteration_fail [OF tv nv True] no_repeat_inv_def processed_append)
    next
      case False
      then obtain st doc where a: "answer = Response st doc" and ok: "\<not> raise_for_status st"
        by (cases answer) auto
      show ?thesis
      proof (cases "extract_links_from_page lib self doc u")
        case (Inl e)
        from assms tv nv show ?thesis
          by (auto simp: a crawl_iteration_raise [OF tv nv ok Inl] no_repeat_inv_def
              processed_append ok)
      next
        case (Inr new_links)
        let ?s' = "s\<lparr>to_visit := rest,
             events := events s @ [Log_info (page_count s + 1) u, Http_get u (Some st)],
             visited := insert u (visited s),
             page_count := page_count s + 1,
             all_links := all_links s \<union> new_links\<rparr>"
        from assms tv have d: "distinct (to_visit ?s')"
          and dj: "visited ?s' \<inter> set (to_visit ?s') = {}"
          by (auto simp: no_repeat_inv_def)
        from fold_enqueue_distinct [OF d, of order] fold_enqueue_disjoint [OF dj, of order] assms nv
        show ?thesis
          by (simp add: a crawl_iteration_ok [OF tv nv ok Inr] no_repeat_inv_def emit_def
              fold_enqueue_fields processed_append ok)
      qed
    qed
  qed
qed

lemma no_repeat_inv_reachable: "reachable lib self s \<Longrightarrow> no_repeat_inv s"
proof (induction rule: reachable.induct)
  case start
  show ?case by (simp add: no_repeat_inv_def init_state_def)
next
  case (pass s answer order)
  then show ?case by (simp add: no_repeat_inv_pass)
qed

lemma frontier_inv_pass:
  assumes "frontier_inv self s" "to_visit s \<noteq> []"
  shows "frontier_inv self (crawl_iteration lib self answer order s)"
proof -
  from assms obtain u rest where tv: "to_visit s = u # rest" by (cases "to_visit s") auto
  show ?thesis
  proof (cases "s = init_state self")
    case True
    then have u: "u = base_url self" and r: "rest = []" and nv: "u \<notin> visited s"
      and ev: "events s = []"
      using tv by (simp_all add: init_state_def)
    show ?thesis
    proof (cases "request_fails answer")
      case True
      show ?thesis
        by (simp add: crawl_iteration_fail [OF tv nv True] frontier_inv_def r u ev)
    next
      case False
      then obtain st doc where a: "answer = Response st doc" and ok: "\<not> raise_for_status st"
        by (cases answer) auto
      show ?thesis
      proof (cases "extract_links_from_page lib self doc u")
        case (Inl e)
        show ?thesis
          by (simp add: a crawl_iteration_raise [OF tv nv ok Inl] frontier_inv_def r u ev)
      next
        case (Inr new_links)
        show ?thesis
          by (simp add: a crawl_iteration_ok [OF tv nv ok Inr] frontier_inv_def emit_def
              fold_enqueue_fields fold_enqueue_should_visit r u ev)
      qed
    qed
  next
    case False
    with assms tv obtain later where sv: "should_visit_link u" "list_all should_visit_link rest"
      and at: "attempts (events s) = base_url self # later" "list_all should_visit_link later"
      by (auto simp: frontier_inv_def)
    show ?thesis
    proof (cases "u \<in> visited s")
      case True
      with sv at show ?thesis by (simp add: crawl_iteration_skip [OF tv True] frontier_inv_def)
    next
      case nv: False
      show ?thesis
      proof (cases "request_fails answer")
        case True
        with sv at show ?thesis
          by (simp add: crawl_iteration_fail [OF tv nv True] frontier_inv_def attempts_append)
      next
        case False
        then obtain st doc where a: "answer = Response st doc" and ok: "\<not> raise_for_status st"
          by (cases answer) auto
        show ?thesis
        proof (cases "extract_links_from_page lib self doc u")
          case (Inl e)
          from sv at show ?thesis
            by (simp add: a crawl_iteration_raise [OF tv nv ok Inl] frontier_inv_def
                attempts_append)
        next
          case (Inr new_links)
          from sv at show ?thesis
            by (simp add: a crawl_iteration_ok [OF tv nv ok Inr] frontier_inv_def emit_def
                fold_enqueue_fields fold_enqueue_should_visit attempts_append)
        qed
      qed
    qed
  qed
qed

lemma frontier_inv_reachable: "reachable lib self s \<Longrightarrow> frontier_inv self s"
proof (induction rule: reachable.induct)
  case start
  show ?case by (simp add: frontier_inv_def)
next
  case (pass s answer order)
  then show ?case by (simp add: frontier_inv_pass)
qed

lemma pass_all_links_fail:
  "to_visit s \<noteq> [] \<Longrightarrow> request_fails answer \<Longrightarrow>
   all_links (crawl_iteration lib self answer order s) = all_links s \<and>
   visited (crawl_iteration lib self answer order s) = visited s \<and>
   page_count (crawl_iteration lib self answer order s) = page_count s \<and>
   raised (crawl_iteration lib self answer order s) = raised s \<and>
   to_visit (crawl_iteration lib self answer order s) = tl (to_visit s)"
  by (cases "to_visit s"; cases "hd (to_visit s) \<in> visited s")
     (simp_all add: crawl_iteration_skip crawl_iteration_fail)

lemma drain:
  "length (to_visit s) = n \<Longrightarrow> raised s = None \<Longrightarrow>
   \<exists>s'. crawl lib self (replicate n (Request_exception, [])) s = Some s' \<and>
        all_links s' = all_links s \<and> raised s' = None \<and>
        inputs_ok lib self (replicate n (Request_exception, [])) s"
proof (induction n arbitrary: s)
  case 0
  then show ?case by simp
next
  case (Suc n)
  then have ne: "to_visit s \<noteq> []" by auto
  let ?s1 = "crawl_iteration lib self Request_exception [] s"
  from pass_all_links_fail [OF ne, of Request_exception lib self "[]"] Suc.prems
  have l: "length (to_visit ?s1) = n" and al: "all_links ?s1 = all_links s"
    and ra: "raised ?s1 = None" by simp_all
  from Suc.IH [OF l ra] obtain s' where
    "crawl lib self (replicate n (Request_exception, [])) ?s1 = Some s'"
    "all_links s' = all_links ?s1" "raised s' = None"
    "inputs_ok lib self (replicate n (Request_exception, [])) ?s1" by blast
  with ne al Suc.prems(2) show ?case by (simp add: order_ok_def split: list.splits)
qed

lemma excluded_discovered:
  assumes x: "extract_links_from_page lib self doc (base_url self) = Inr links"
    and u: "u \<in> links" and ok: "\<not> raise_for_status st"
  shows "\<exists>inputs s'. inputs_ok lib self inputs (init_state self) \<and>
           crawl lib self inputs (init_state self) = Some s' \<and> raised s' = None \<and>
           u \<in> all_links s'"
proof -
  from finite_distinct_list [OF finite_extract [OF x]]
  obtain order where o: "set order = links" "distinct order" by blast
  let ?s0 = "init_state self"
  let ?s1 = "crawl_iteration lib self (Response st doc) order ?s0"
  have tv: "to_visit ?s0 = base_url self # []" and nv: "base_url self \<notin> visited ?s0"
    and r0: "raised ?s0 = None"
    by (simp_all add: init_state_def)
  have al: "u \<in> all_links ?s1" and r1: "raised ?s1 = None"
    using u r0 by (simp_all add: crawl_iteration_ok [OF tv nv ok x] emit_def fold_enqueue_fields)
  have oo: "order_ok lib self (Response st doc) order ?s0"
    using o x by (simp add: order_ok_def init_state_def)
  from drain [where s = ?s1 and lib = lib and self = self, OF refl r1] obtain s' where
    d: "crawl lib self (replicate (length (to_visit ?s1)) (Request_exception, [])) ?s1 = Some s'"
      "all_links s' = all_links ?s1" "raised s' = None"
      "inputs_ok lib self (replicate (length (to_visit ?s1)) (Request_exception, [])) ?s1"
    by blast
  let ?inputs = "(Response st doc, order) # replicate (length (to_visit ?s1)) (Request_exception, [])"
  have "inputs_ok lib self ?inputs ?s0" using oo d(4) by simp
  moreover have "crawl lib self ?inputs ?s0 = Some s'" using d(1) tv r0 by simp
  moreover have "u \<in> all_links s'" using al d(2) by simp
  ultimately show ?thesis using d(3) by blast
qed

lemma pass_events_extend:
  assumes "to_visit s \<noteq> []"
  shows "\<exists>more. events (crawl_iteration lib self answer order s) = events s @ more"
proof -
  from assms obtain u rest where tv: "to_visit s = u # rest" by (cases "to_visit s") auto
  show ?thesis
  proof (cases "u \<in> visited s")
    case True
    then show ?thesis by (simp add: crawl_iteration_skip [OF tv True])
  next
    case nv: False
    show ?thesis
    proof (cases "request_fails answer")
      case True
      show ?thesis by (simp add: crawl_iteration_fail [OF tv nv True])
    next
      case False
      then obtain st doc where a: "answer = Response st doc" and ok: "\<not> raise_for_status st"
        by (cases answer) auto
      show ?thesis
      proof (cases "extract_links_from_page lib self doc u")
        case (Inl e)
        show ?thesis by (simp add: a crawl_iteration_raise [OF tv nv ok Inl])
      next
        case (Inr new_links)
        show ?thesis
          by (simp add: a crawl_iteration_ok [OF tv nv ok Inr] emit_def fold_enqueue_fields)
      qed
    qed
  qed
qed

lemma crawl_events_extend:
  "crawl lib self inputs s = Some s' \<Longrightarrow> \<exists>more. events s' = events s @ more"
proof (induction inputs arbitrary: s)
  case Nil
  then show ?case by (simp split: if_splits)
next
  case (Cons i inputs)
  obtain answer order where i: "i = (answer, order)" by (cases i)
  show ?case
  proof (cases "to_visit s = [] \<or> raised s \<noteq> None")
    case True
    with Cons.prems i show ?thesis by auto
  next
    case False
    with Cons.prems i have
      "crawl lib self inputs (crawl_iteration lib self answer order s) = Some s'" by simp
    from Cons.IH [OF this] obtain more where
      m: "events s' = events (crawl_iteration lib self answer order s) @ more" by blast
    from False pass_events_extend [of s lib self answer order] obtain m1 where
      "events (crawl_iteration lib self answer order s) = events s @ m1" by blast
    with m show ?thesis by auto
  qed
qed

lemma first_pass_attempts:
  "attempts (events (crawl_iteration lib self answer order (init_state self))) = [base_url self]"
proof -
  have tv: "to_visit (init_state self) = base_url self # []"
    and nv: "base_url self \<notin> visited (init_state self)"
    and ev: "events (init_state self) = []"
    by (simp_all add: init_state_def)
  show ?thesis
  proof (cases "request_fails answer")
    case True
    show ?thesis by (simp add: crawl_iteration_fail [OF tv nv True] ev)
  next
    case False
    then obtain st doc where a: "answer = Response st doc" and ok: "\<not> raise_for_status st"
      by (cases answer) auto
    show ?thesis
    proof (cases "extract_links_from_page lib self doc (base_url self)")
      case (Inl e)
      show ?thesis by (simp add: a crawl_iteration_raise [OF tv nv ok Inl] ev)
    next
      case (Inr new_links)
      show ?thesis
        by (simp add: a crawl_iteration_ok [OF tv nv ok Inr] emit_def fold_enqueue_fields ev)
    qed
  qed
qed

lemma crawl_reachable:
  "reachable lib self s \<Longrightarrow> inputs_ok lib self inputs s \<Longrightarrow> crawl lib self inputs s = Some s'
   \<Longrightarrow> reachable lib self s'"
proof (induction inputs arbitrary: s)
  case Nil
  then show ?case by (simp split: if_splits)
next
  case (Cons i inputs)
  obtain answer order where i: "i = (answer, order)" by (cases i)
  show ?case
  proof (cases "to_visit s = [] \<or> raised s \<noteq> None")
    case True
    with Cons.prems i show ?thesis by auto
  next
    case False
    with Cons.prems i have
      "reachable lib self (crawl_iteration lib self answer order s)"
      "inputs_ok lib self inputs (crawl_iteration lib self answer order s)"
      "crawl lib self inputs (crawl_iteration lib self answer order s) = Some s'"
      by (simp_all add: reachable.pass)
    then show ?thesis by (rule Cons.IH)
  qed
qed

lemma site_built: "init_extractor plain_lib ''https://site.com/'' (1 / 2) = Inr site"
  by code_simp


section \<open>The month matcher: claims\<close>

text \<open>
  Claim C1, as amended. \<open>get_month_statistics\<close> counts every month on its own: the count
  of a month is the number of links whose lower-case form contains one of the tokens of
  that month. A link is counted at most once under one month (the \<open>break\<close>), and under
  every month it matches, not only the first. The keys of the result are the months of
  the table, in its order. On the two links of the example the result is janvier 2,
  fevrier 2, mars 0, novembre 0, decembre 1.
\<close>

theorem get_month_statistics_counts_per_month:
  assumes "(month, patterns) \<in> set TARGET_MONTHS"
  shows "map_of (get_month_statistics links) month =
           Some (length [link \<leftarrow> links. list_ex (\<lambda>pattern. py_in pattern (lower link)) patterns])
         \<and> map fst (get_month_statistics links) = map fst TARGET_MONTHS
         \<and> get_month_statistics [''site.com/2024-01-a'', ''site.com/2024-12-b''] =
             [(''janvier'', 2), (fevrier, 2), (''mars'', 0), (''novembre'', 0), (decembre, 1)]"
proof -
  have one: "\<And>link. length [e \<leftarrow> TARGET_MONTHS. fst e = month \<and>
                          list_ex (\<lambda>pattern. py_in pattern (lower link)) (snd e)]
          = (if list_ex (\<lambda>pattern. py_in pattern (lower link)) patterns then 1 else 0)"
    by (rule unique_entry [OF TARGET_MONTHS_distinct assms])
  have keys: "map fst (get_month_statistics links) = map fst TARGET_MONTHS"
    by (simp only: get_month_statistics_def count_links_keys init_keys)
  have count: "map_of (get_month_statistics links) month =
      Some (length [link \<leftarrow> links. list_ex (\<lambda>pattern. py_in pattern (lower link)) patterns])"
    by (simp only: get_month_statistics_def count_links_lookup init_lookup [OF assms] one
        sum_indicator option.map add_0)
  have example: "get_month_statistics [''site.com/2024-01-a'', ''site.com/2024-12-b''] =
      [(''janvier'', 2), (fevrier, 2), (''mars'', 0), (''novembre'', 0), (decembre, 1)]"
    by code_simp
  from count keys example show ?thesis by blast
qed

text \<open>The theorem of C1 at the month janvier and the two links of the example: both
  links contain the token \<open>1\<close>.\<close>

theorem get_month_statistics_counts_per_month_witness:
  "(''janvier'', [''01'', ''1'', ''janvier'', ''january'']) \<in> set TARGET_MONTHS \<and>
   map_of (get_month_statistics [''site.com/2024-01-a'', ''site.com/2024-12-b'']) ''janvier'' = Some 2"
proof -
  have h: "(''janvier'', [''01'', ''1'', ''janvier'', ''january'']) \<in> set TARGET_MONTHS"
    by (simp add: TARGET_MONTHS_def)
  have n: "length [link \<leftarrow> [''site.com/2024-01-a'', ''site.com/2024-12-b''].
             list_ex (\<lambda>pattern. py_in pattern (lower link)) [''01'', ''1'', ''janvier'', ''january'']] = 2"
    by code_simp
  from get_month_statistics_counts_per_month [OF h, of "[''site.com/2024-01-a'', ''site.com/2024-12-b'']"]
  have "map_of (get_month_statistics [''site.com/2024-01-a'', ''site.com/2024-12-b'']) ''janvier'' =
      Some (length [link \<leftarrow> [''site.com/2024-01-a'', ''site.com/2024-12-b''].
             list_ex (\<lambda>pattern. py_in pattern (lower link)) [''01'', ''1'', ''janvier'', ''january'']])"
    by blast
  with h n show ?thesis by simp
qed

text \<open>Claim C1 as stated fails on its own example: the result is not janvier 1,
  decembre 1 and 0 elsewhere. The year 2024 contains the token \<open>02\<close> of fevrier, and
  the second link the token \<open>1\<close> of janvier.\<close>

theorem get_month_statistics_first_match_counterexample:
  "get_month_statistics [''site.com/2024-01-a'', ''site.com/2024-12-b''] \<noteq>
     [(''janvier'', 1), (fevrier, 0), (''mars'', 0), (''novembre'', 0), (decembre, 1)]"
  by code_simp



text \<open>
  Claim C8. \<open>filter_links_by_months\<close> returns the links for which
  \<open>_contains_target_month\<close> is true, in the order of the input, a subsequence of it,
  and filtering its result again changes nothing.
\<close>

theorem filter_links_by_months_subsequence:
  "filter_links_by_months links = filter contains_target_month links \<and>
   subseq (filter_links_by_months links) links \<and>
   filter_links_by_months (filter_links_by_months links) = filter_links_by_months links"
  by (simp add: filter_links_by_months_def)

section \<open>The exclusion test: claims\<close>

text \<open>
  Claim C3, as amended. \<open>_should_visit_link\<close> is false exactly when the whole url, in
  lower case and with its query if it has one, ends with one of the excluded extensions,
  or a hash occurs before the first question mark. It is false on a url that ends with
  \<open>report.PDF\<close> and true on one that ends with \<open>2024/03/index.html\<close>.
\<close>

theorem should_visit_link_whole_url:
  "(\<not> should_visit_link url) =
     ((\<exists>ext \<in> set EXCLUDED_EXTENSIONS. suffix ext (lower url)) \<or>
      CHR ''#'' \<in> set (takeWhile (\<lambda>c. c \<noteq> CHR ''?'') url)) \<and>
   \<not> should_visit_link ''https://site.com/docs/report.PDF'' \<and>
   should_visit_link ''https://site.com/2024/03/index.html''"
proof -
  have "(\<not> should_visit_link url) =
     ((\<exists>ext \<in> set EXCLUDED_EXTENSIONS. suffix ext (lower url)) \<or>
      CHR ''#'' \<in> set (takeWhile (\<lambda>c. c \<noteq> CHR ''?'') url))"
    by (simp add: should_visit_link_def list_ex_iff endswith_suffix hd_split)
  moreover have "\<not> should_visit_link ''https://site.com/docs/report.PDF''" by code_simp
  moreover have "should_visit_link ''https://site.com/2024/03/index.html''" by code_simp
  ultimately show ?thesis by blast
qed

text \<open>The theorem of C3 at a url with a fragment: the hash comes before any question
  mark, and the url is not to be visited.\<close>

theorem should_visit_link_whole_url_witness:
  "CHR ''#'' \<in> set (takeWhile (\<lambda>c. c \<noteq> CHR ''?'') ''https://site.com/page#top'') \<and>
   \<not> should_visit_link ''https://site.com/page#top''"
proof -
  have h: "CHR ''#'' \<in> set (takeWhile (\<lambda>c. c \<noteq> CHR ''?'') ''https://site.com/page#top'')"
    by simp
  with should_visit_link_whole_url [of "''https://site.com/page#top''"] show ?thesis by blast
qed

text \<open>Claim C3 as stated fails where the path and the whole url end differently: the
  path of this url ends with \<open>.pdf\<close>, so the test of the specification excludes it, and
  the program visits it, since the url ends with its query.\<close>

theorem is_excluded_path_counterexample:
  "spec_is_excluded ''https://site.com/a.pdf?x=1'' \<and> should_visit_link ''https://site.com/a.pdf?x=1''"
  by (intro conjI; code_simp)


section \<open>Link extraction: claims\<close>

text \<open>
  Claim C9, as amended. \<open>_extract_links_from_page\<close> scans the \<open>href\<close> values of the
  anchors of the document, each trimmed of white space at both ends; the values that are
  then empty or begin with \<open>javascript:\<close>, \<open>mailto:\<close> or \<open>tel:\<close> are skipped. When
  \<open>urljoin\<close> resolves every remaining value against the url of the page and \<open>urlparse\<close>
  parses every resolved url, the function returns the set of the resolved urls whose
  network location is the domain of the extractor: a set, so without duplicates. When
  one of the two raises \<open>ValueError\<close> on a remaining value, the function raises it and
  returns no set. The function reads the extractor, the document and the url and gives
  the set or the error: the state of the crawl is neither an argument nor a result of
  it.
\<close>

theorem extract_links_from_page_set:
  "extract_links_from_page lib self doc current_url =
     (let hrefs =
        {href \<in> strip ` {v. \<exists>t \<in> set doc. tag_name t = ''a'' \<and> attrs t ''href'' = Some v}.
           href \<noteq> [] \<and>
           \<not> prefix ''javascript:'' href \<and> \<not> prefix ''mailto:'' href \<and> \<not> prefix ''tel:'' href}
      in if \<forall>href \<in> hrefs. \<exists>absolute_url loc.
              urljoin lib current_url href = Inr absolute_url \<and> netloc lib absolute_url = Inr loc
         then Inr {absolute_url. \<exists>href \<in> hrefs.
                     urljoin lib current_url href = Inr absolute_url \<and>
                     netloc lib absolute_url = Inr (domain self)}
         else Inl ValueError)"
proof -
  have "set (filter navigable (map strip (anchor_hrefs doc))) =
      {href \<in> strip ` {v. \<exists>t \<in> set doc. tag_name t = ''a'' \<and> attrs t ''href'' = Some v}.
         href \<noteq> [] \<and>
         \<not> prefix ''javascript:'' href \<and> \<not> prefix ''mailto:'' href \<and> \<not> prefix ''tel:'' href}"
    by (auto simp: anchor_hrefs_set navigable_def startswith_prefix)
  then show ?thesis
    by (simp only: extract_links_from_page_def extract_loop_eq Let_def Un_empty_left)
qed

text \<open>The theorem of C9 on the home page of the example site: the function returns a
  set there, the three links of the page, so the side of the theorem on which every
  reference resolves and parses is the one taken.\<close>

theorem extract_links_from_page_set_witness:
  "extract_links_from_page plain_lib site home_page ''https://site.com/''
     = Inr {''https://site.com/a'', ''https://site.com/b'', ''https://site.com/c.pdf''}"
proof -
  note inst = extract_links_from_page_set [of plain_lib site home_page "''https://site.com/''"]
  have e: "extract_links_from_page plain_lib site home_page ''https://site.com/''
      = Inr {''https://site.com/a'', ''https://site.com/b'', ''https://site.com/c.pdf''}"
    by code_simp
  from inst [symmetric] e have
    "(let hrefs =
        {href \<in> strip ` {v. \<exists>t \<in> set home_page. tag_name t = ''a'' \<and> attrs t ''href'' = Some v}.
           href \<noteq> [] \<and>
           \<not> prefix ''javascript:'' href \<and> \<not> prefix ''mailto:'' href \<and> \<not> prefix ''tel:'' href}
      in if \<forall>href \<in> hrefs. \<exists>absolute_url loc.
              urljoin plain_lib ''https://site.com/'' href = Inr absolute_url \<and>
              netloc plain_lib absolute_url = Inr loc
         then Inr {absolute_url. \<exists>href \<in> hrefs.
                     urljoin plain_lib ''https://site.com/'' href = Inr absolute_url \<and>
                     netloc plain_lib absolute_url = Inr (domain site)}
         else Inl ValueError)
     = Inr {''https://site.com/a'', ''https://site.com/b'', ''https://site.com/c.pdf''}"
    by (rule trans)
  with inst show ?thesis by (rule trans)
qed

text \<open>Claim C9 as stated fails on a document with a reference that \<open>urljoin\<close> refuses:
  for the anchor \<open>http://[::1\<close> the function raises \<open>ValueError\<close> and returns no set.\<close>

theorem extract_links_from_page_raises_counterexample:
  "extract_links_from_page plain_lib site broken_page ''https://site.com/'' = Inl ValueError"
  by code_simp

section \<open>The traversal: claims\<close>

text \<open>
  Claim C5. In every state at the head of the loop, in every run, whatever the network
  answers: no visited url is in the frontier, no url is in the frontier twice, and the
  urls of the pages fetched and processed are each processed once; they are the
  visited urls. (The passes of the inner \<open>for\<close> loop keep the first two facts as well:
  lemmas \<open>enqueue_disjoint\<close> and \<open>enqueue_distinct\<close>.)
\<close>

theorem traversal_never_repeats:
  assumes "reachable lib self s"
  shows "visited s \<inter> set (to_visit s) = {} \<and> distinct (to_visit s) \<and>
         distinct (processed (events s)) \<and> set (processed (events s)) = visited s"
  using no_repeat_inv_reachable [OF assms] by (simp add: no_repeat_inv_def)

text \<open>The theorem of C5 in the state after the home page of the example site was
  processed.\<close>

theorem traversal_never_repeats_witness:
  "reachable plain_lib site after_home \<and>
   visited after_home \<inter> set (to_visit after_home) = {} \<and> distinct (to_visit after_home) \<and>
   distinct (processed (events after_home)) \<and>
   set (processed (events after_home)) = visited after_home"
proof -
  have ne: "to_visit (init_state site) \<noteq> []" by (simp add: init_state_def)
  have nr: "raised (init_state site) = None" by (simp add: init_state_def)
  have ok: "order_ok plain_lib site (Response 200 home_page) home_order (init_state site)"
    by code_simp
  have r: "reachable plain_lib site after_home"
    unfolding after_home_def by (rule reachable.pass [OF reachable.start ne nr ok])
  with traversal_never_repeats [OF r] show ?thesis by blast
qed

text \<open>
  Claim C6. In every run, in every state at the head of the loop other than the first,
  every url of the frontier has passed \<open>_should_visit_link\<close>; the first request of the
  run is for the base url and every later request is for a url that passed. So a url
  that fails the test is never put in the frontier and never requested once it was
  extracted. It can still be returned: when such a url is extracted from the page of
  the base url, some run returns, without an exception, a set of links that contains it.
\<close>

theorem excluded_links_found_but_never_queued:
  "(reachable lib self s \<longrightarrow>
      s = init_state self \<or>
      (list_all should_visit_link (to_visit s) \<and>
       (\<exists>later. attempts (events s) = base_url self # later \<and>
                list_all should_visit_link later))) \<and>
   (extract_links_from_page lib self doc (base_url self) = Inr links \<and> u \<in> links \<and>
    \<not> should_visit_link u \<and> \<not> raise_for_status status_code \<longrightarrow>
      (\<exists>inputs found. inputs_ok lib self inputs (init_state self) \<and>
         get_all_domain_links lib self inputs = Some (Inr found) \<and> u \<in> found))"
proof (intro conjI impI)
  assume "reachable lib self s"
  from frontier_inv_reachable [OF this]
  show "s = init_state self \<or>
      (list_all should_visit_link (to_visit s) \<and>
       (\<exists>later. attempts (events s) = base_url self # later \<and>
                list_all should_visit_link later))"
    by (simp add: frontier_inv_def)
next
  assume "extract_links_from_page lib self doc (base_url self) = Inr links \<and> u \<in> links \<and>
    \<not> should_visit_link u \<and> \<not> raise_for_status status_code"
  then have x: "extract_links_from_page lib self doc (base_url self) = Inr links"
    and u: "u \<in> links" and ok: "\<not> raise_for_status status_code" by simp_all
  from excluded_discovered [OF x u ok]
  show "\<exists>inputs found. inputs_ok lib self inputs (init_state self) \<and>
         get_all_domain_links lib self inputs = Some (Inr found) \<and> u \<in> found"
    by (auto simp: get_all_domain_links_def)
qed

text \<open>The theorem of C6 on the example site: after the home page the frontier holds
  the two pages and not the PDF file, and a run returns the PDF file among the links.\<close>

theorem excluded_links_found_but_never_queued_witness:
  "reachable plain_lib site after_home \<and>
   extract_links_from_page plain_lib site home_page (base_url site) =
     Inr {''https://site.com/a'', ''https://site.com/b'', ''https://site.com/c.pdf''} \<and>
   \<not> should_visit_link ''https://site.com/c.pdf'' \<and> \<not> raise_for_status 200 \<and>
   list_all should_visit_link (to_visit after_home) \<and>
   ''https://site.com/c.pdf'' \<notin> set (to_visit after_home) \<and>
   (\<exists>inputs found. inputs_ok plain_lib site inputs (init_state site) \<and>
      get_all_domain_links plain_lib site inputs = Some (Inr found) \<and>
      ''https://site.com/c.pdf'' \<in> found)"
proof -
  have ne: "to_visit (init_state site) \<noteq> []" by (simp add: init_state_def)
  have nr: "raised (init_state site) = None" by (simp add: init_state_def)
  have ok: "order_ok plain_lib site (Response 200 home_page) home_order (init_state site)"
    by code_simp
  have r: "reachable plain_lib site after_home"
    unfolding after_home_def by (rule reachable.pass [OF reachable.start ne nr ok])
  have x: "extract_links_from_page plain_lib site home_page (base_url site) =
      Inr {''https://site.com/a'', ''https://site.com/b'', ''https://site.com/c.pdf''}"
    by code_simp
  have m: "''https://site.com/c.pdf'' \<in>
      {''https://site.com/a'', ''https://site.com/b'', ''https://site.com/c.pdf''}" by simp
  have e: "\<not> should_visit_link ''https://site.com/c.pdf''" by code_simp
  have st: "\<not> raise_for_status 200" by (simp add: raise_for_status_def)
  have n: "after_home \<noteq> init_state site" by code_simp
  have q: "''https://site.com/c.pdf'' \<notin> set (to_visit after_home)" by code_simp
  from excluded_links_found_but_never_queued
    [of plain_lib site after_home home_page
      "{''https://site.com/a'', ''https://site.com/b'', ''https://site.com/c.pdf''}"
      "''https://site.com/c.pdf''" 200] r x m e st n q
  show ?thesis by blast
qed

text \<open>
  Claim C7, as amended. When a request fails, that is \<open>session.get\<close> raises (no
  connection, timeout) or the response has a status code from 400 to 599, the pass
  logs a warning and gives up that url only: the url leaves the frontier, the visited
  set, the set of links found, the page count and the rest of the frontier stay as they
  were, the trace grows by the progress line, the one request and the warning, no
  exception leaves the pass, and the loop goes on with the state so reached. In a run
  the url is not in the rest of the frontier, so the next request is for another url.
\<close>

theorem failed_fetch_abandons_url:
  assumes "to_visit s = u # rest" and "u \<notin> visited s"
    and "answer = Request_exception \<or>
         (\<exists>status_code doc. answer = Response status_code doc \<and> 400 \<le> status_code \<and> status_code < 600)"
  shows "visited (crawl_iteration lib self answer order s) = visited s \<and>
         all_links (crawl_iteration lib self answer order s) = all_links s \<and>
         page_count (crawl_iteration lib self answer order s) = page_count s \<and>
         to_visit (crawl_iteration lib self answer order s) = rest \<and>
         events (crawl_iteration lib self answer order s) =
           events s @ [Log_info (page_count s + 1) u, Http_get u (status_of answer), Log_warning u] \<and>
         raised (crawl_iteration lib self answer order s) = raised s \<and>
         (raised s = None \<longrightarrow>
            crawl lib self ((answer, order) # inputs) s =
              crawl lib self inputs (crawl_iteration lib self answer order s)) \<and>
         (reachable lib self s \<longrightarrow> u \<notin> set rest)"
proof -
  from assms(3) have f: "request_fails answer" by (auto simp: raise_for_status_def)
  have "reachable lib self s \<longrightarrow> u \<notin> set rest"
  proof
    assume "reachable lib self s"
    from no_repeat_inv_reachable [OF this] assms(1) show "u \<notin> set rest"
      by (simp add: no_repeat_inv_def)
  qed
  with assms(1) show ?thesis by (simp add: crawl_iteration_fail [OF assms(1,2) f])
qed

text \<open>The theorem of C7 on the example site: after the home page, the request for the
  first page fails, and the frontier is left with the second page.\<close>

theorem failed_fetch_abandons_url_witness:
  "to_visit after_home = ''https://site.com/a'' # [''https://site.com/b''] \<and>
   ''https://site.com/a'' \<notin> visited after_home \<and>
   visited (crawl_iteration plain_lib site (Response 503 []) [] after_home) = visited after_home \<and>
   to_visit (crawl_iteration plain_lib site (Response 503 []) [] after_home) = [''https://site.com/b'']"
proof -
  have h1: "to_visit after_home = ''https://site.com/a'' # [''https://site.com/b'']" by code_simp
  have h2: "''https://site.com/a'' \<notin> visited after_home" by code_simp
  have h3: "Response 503 [] = Request_exception \<or>
     (\<exists>status_code doc. Response 503 [] = Response status_code doc \<and> 400 \<le> status_code \<and> status_code < 600)"
    by simp
  from failed_fetch_abandons_url [OF h1 h2 h3, of plain_lib site "[]"] h1 h2
  show ?thesis by blast
qed

text \<open>Claim C7 as stated fails for a status that is neither 2xx nor an error for
  \<open>raise_for_status\<close>: a response with status 304 is processed like a success, and its
  url is added to the visited set.\<close>

theorem non_2xx_status_processed_counterexample:
  "visited (crawl_iteration plain_lib site (Response 304 []) [] (init_state site)) \<noteq>
     visited (init_state site)"
  by code_simp

text \<open>
  Claim C10. The first frontier is the base url alone, and the first pass requests it,
  whatever \<open>_should_visit_link\<close> says of it: the test is applied to extracted links only.
  Every run that returns has made its first request for the base url. An extractor
  started on a url that ends with \<open>.pdf\<close>, which fails the test, requests it.
\<close>

theorem base_url_fetched_without_check:
  "to_visit (init_state self) = [base_url self] \<and>
   attempts (events (crawl_iteration lib self answer order (init_state self))) = [base_url self] \<and>
   (crawl lib self inputs (init_state self) = Some s' \<longrightarrow>
      (\<exists>later. attempts (events s') = base_url self # later)) \<and>
   \<not> should_visit_link (base_url pdf_site) \<and>
   attempts (events (crawl_iteration lib pdf_site answer order (init_state pdf_site)))
     = [''https://site.com/doc.pdf'']"
proof -
  have a: "to_visit (init_state self) = [base_url self]" by (simp add: init_state_def)
  have nr: "raised (init_state self) = None" by (simp add: init_state_def)
  have b: "crawl lib self inputs (init_state self) = Some s' \<longrightarrow>
      (\<exists>later. attempts (events s') = base_url self # later)"
  proof
    assume c: "crawl lib self inputs (init_state self) = Some s'"
    show "\<exists>later. attempts (events s') = base_url self # later"
    proof (cases inputs)
      case Nil
      with c a nr show ?thesis by simp
    next
      case (Cons i rest)
      obtain answer' order' where i: "i = (answer', order')" by (cases i)
      from c a nr Cons i have
        "crawl lib self rest (crawl_iteration lib self answer' order' (init_state self)) = Some s'"
        by simp
      from crawl_events_extend [OF this] obtain more where
        "events s' = events (crawl_iteration lib self answer' order' (init_state self)) @ more"
        by blast
      then show ?thesis by (simp add: attempts_append first_pass_attempts)
    qed
  qed
  have p: "base_url pdf_site = ''https://site.com/doc.pdf''"
    by (simp add: pdf_site_def)
  have d: "\<not> should_visit_link (base_url pdf_site)" unfolding p by code_simp
  from a b d p show ?thesis by (simp add: first_pass_attempts)
qed

text \<open>The theorem of C10 on the extractor started on the PDF file: a run of one pass
  returns, and its one request is for the PDF file.\<close>

theorem base_url_fetched_without_check_witness:
  "crawl plain_lib pdf_site [(Response 200 [], [])] (init_state pdf_site) =
     Some (crawl_iteration plain_lib pdf_site (Response 200 []) [] (init_state pdf_site)) \<and>
   (\<exists>later. attempts (events (crawl_iteration plain_lib pdf_site (Response 200 []) []
      (init_state pdf_site))) = base_url pdf_site # later)"
proof -
  have c: "crawl plain_lib pdf_site [(Response 200 [], [])] (init_state pdf_site) =
     Some (crawl_iteration plain_lib pdf_site (Response 200 []) [] (init_state pdf_site))"
    by code_simp
  with base_url_fetched_without_check [of pdf_site plain_lib "Response 200 []" "[]"
      "[(Response 200 [], [])]"
      "crawl_iteration plain_lib pdf_site (Response 200 []) [] (init_state pdf_site)"]
  show ?thesis by blast
qed

text \<open>
  Claim C4 on the run of the example in which the two pages of the home page fail: it
  is a run of the program, its requests are for the home page and the two pages, and no
  \<open>Sleep\<close> lies between the failed request for the first page and the request for the
  second: \<open>time.sleep\<close> is the last statement of the \<open>try\<close> block, which a failed request
  leaves before.
\<close>

theorem no_delay_after_failed_fetch:
  "inputs_ok plain_lib site failing_run (init_state site) \<and>
   map_option events (crawl plain_lib site failing_run (init_state site)) =
     Some [Log_info 1 ''https://site.com/'', Http_get ''https://site.com/'' (Some 200), Sleep (1 / 2),
           Log_info 2 ''https://site.com/a'', Http_get ''https://site.com/a'' None,
           Log_warning ''https://site.com/a'',
           Log_info 2 ''https://site.com/b'', Http_get ''https://site.com/b'' None,
           Log_warning ''https://site.com/b''] \<and>
   map_option (\<lambda>s. delay_between_attempts (events s))
     (crawl plain_lib site failing_run (init_state site)) = Some False"
  by (intro conjI; code_simp)



end
